theory Spec2Isabelle
  imports Main "HOL-Library.Option_ord" "HOL-Library.Multiset" "HOL-Library.Sublist"
begin

section \<open>JavaScript values\<close>

text \<open>
  The values that flow through \<^verbatim>\<open>src/index.js\<close>. Numbers are integers (timestamps,
  counters); \<open>NaN\<close> and fractions do not occur in what is verified here. An object is
  the list of its own enumerable properties in the order \<^verbatim>\<open>Object.keys\<close> lists them;
  property names are ordinary data properties (the inherited accessor \<^verbatim>\<open>__proto__\<close> and
  the reordering of integer-like names are outside this model). \<open>JObj\<close> is a plain
  object (an object literal, the result of \<^verbatim>\<open>JSON.parse\<close>), \<open>JInst c\<close> an object that
  is not plain (an instance of class \<open>c\<close>, a \<^verbatim>\<open>Date\<close>, an \<^verbatim>\<open>Error\<close>) with its own
  properties, \<open>JFun\<close> a function.
\<close>

datatype jsval =
    JUndefined
  | JNull
  | JBool bool
  | JNum int
  | JStr string
  | JFun string
  | JArr "jsval list"
  | JObj "(string \<times> jsval) list"
  | JInst string "(string \<times> jsval) list"

type_synonym props = "(string \<times> jsval) list"

text \<open>
  What the program can throw: the \<^verbatim>\<open>Error\<close> of \<^verbatim>\<open>toDot\<close>, the engine's
  \<^verbatim>\<open>TypeError\<close>, and the two errors of the factory.
\<close>

datatype error = InvalidArgument | TypeError | NeedMongoAddress | UnableToAddHistory

fun typeof :: "jsval \<Rightarrow> string" where
  "typeof JUndefined = ''undefined''"
| "typeof JNull = ''object''"
| "typeof (JBool b) = ''boolean''"
| "typeof (JNum n) = ''number''"
| "typeof (JStr s) = ''string''"
| "typeof (JFun f) = ''function''"
| "typeof (JArr xs) = ''object''"
| "typeof (JObj kvs) = ''object''"
| "typeof (JInst c kvs) = ''object''"

text \<open>The truth value of a value in a condition (\<^verbatim>\<open>!x\<close>, \<^verbatim>\<open>x && y\<close>, \<^verbatim>\<open>if (x)\<close>).\<close>

fun truthy :: "jsval \<Rightarrow> bool" where
  "truthy JUndefined = False"
| "truthy JNull = False"
| "truthy (JBool b) = b"
| "truthy (JNum n) = (n \<noteq> 0)"
| "truthy (JStr s) = (s \<noteq> [])"
| "truthy v = True"

text \<open>lodash's \<^verbatim>\<open>_.isPlainObject\<close>: arrays, \<^verbatim>\<open>null\<close>, primitives and class instances are not plain.\<close>

fun isPlainObject :: "jsval \<Rightarrow> bool" where
  "isPlainObject (JObj kvs) = True"
| "isPlainObject v = False"

text \<open>The decimal name of an array index, as \<^verbatim>\<open>Object.keys\<close> gives it.\<close>

definition digit_char :: "nat \<Rightarrow> char" where
  "digit_char d = char_of (48 + d)"

fun string_of_nat :: "nat \<Rightarrow> string" where
  "string_of_nat n =
     (if n < 10 then [digit_char n] else string_of_nat (n div 10) @ [digit_char (n mod 10)])"

declare string_of_nat.simps [simp del]

definition index_keys :: "nat \<Rightarrow> string list" where
  "index_keys n = map string_of_nat [0..<n]"

text \<open>
  \<^verbatim>\<open>Object.keys(obj)\<close> together with \<^verbatim>\<open>obj[key]\<close> for each key: the own enumerable
  properties. \<^verbatim>\<open>Object.keys\<close> throws a \<^verbatim>\<open>TypeError\<close> on \<^verbatim>\<open>undefined\<close> and \<^verbatim>\<open>null\<close>;
  an array lists its indices, and so does a string; the other primitives and a function
  have none.
\<close>

fun own_entries :: "jsval \<Rightarrow> error + props" where
  "own_entries JUndefined = Inl TypeError"
| "own_entries JNull = Inl TypeError"
| "own_entries (JArr xs) = Inr (zip (index_keys (length xs)) xs)"
| "own_entries (JObj kvs) = Inr kvs"
| "own_entries (JInst c kvs) = Inr kvs"
| "own_entries (JStr s) = Inr (zip (index_keys (length s)) (map (\<lambda>c. JStr [c]) s))"
| "own_entries v = Inr []"

text \<open>
  A property read \<^verbatim>\<open>obj.k\<close>: a \<^verbatim>\<open>TypeError\<close> on \<^verbatim>\<open>undefined\<close> and \<^verbatim>\<open>null\<close>,
  \<^verbatim>\<open>undefined\<close> for a property the value does not have. Only the names this program
  reads (\<^verbatim>\<open>id\<close>, \<^verbatim>\<open>mongoUri\<close>, \<^verbatim>\<open>tables\<close>, \<^verbatim>\<open>length\<close>) are meant.
\<close>

fun get_prop :: "jsval \<Rightarrow> string \<Rightarrow> error + jsval" where
  "get_prop JUndefined k = Inl TypeError"
| "get_prop JNull k = Inl TypeError"
| "get_prop (JObj kvs) k = Inr (case map_of kvs k of Some v \<Rightarrow> v | None \<Rightarrow> JUndefined)"
| "get_prop (JInst c kvs) k = Inr (case map_of kvs k of Some v \<Rightarrow> v | None \<Rightarrow> JUndefined)"
| "get_prop (JArr xs) k =
     Inr (if k = ''length'' then JNum (int (length xs))
          else (case map_of (zip (index_keys (length xs)) xs) k of
                  Some v \<Rightarrow> v | None \<Rightarrow> JUndefined))"
| "get_prop (JStr s) k = Inr (if k = ''length'' then JNum (int (length s)) else JUndefined)"
| "get_prop v k = Inr JUndefined"

text \<open>The assignment \<^verbatim>\<open>o[k] = v\<close>: an existing property keeps its place, a new one goes last.\<close>

fun set_prop :: "(string \<times> 'a) list \<Rightarrow> string \<Rightarrow> 'a \<Rightarrow> (string \<times> 'a) list" where
  "set_prop [] k v = [(k, v)]"
| "set_prop ((k', v') # ps) k v =
     (if k' = k then (k, v) # ps else (k', v') # set_prop ps k v)"

text \<open>\<^verbatim>\<open>Object.assign(target, src)\<close>: every own property of \<open>src\<close> is assigned, in order.\<close>

fun object_assign :: "props \<Rightarrow> props \<Rightarrow> props" where
  "object_assign target [] = target"
| "object_assign target ((k, v) # src) = object_assign (set_prop target k v) src"

section \<open>The dot-path flattener\<close>

text \<open>The measure under which the recursion of \<^verbatim>\<open>toDot\<close> ends: the size of the values.\<close>

definition props_size :: "props \<Rightarrow> nat" where
  "props_size kvs = size_list (\<lambda>p. size (snd p)) kvs"

lemma props_size_zip: "props_size (zip ks xs) \<le> size_list size xs"
proof (induction xs arbitrary: ks)
  case Nil
  then show ?case by (simp add: props_size_def)
next
  case (Cons x xs)
  show ?case
  proof (cases ks)
    case Nil
    then show ?thesis by (simp add: props_size_def)
  next
    case (Cons k ks')
    with Cons.IH [of ks'] show ?thesis by (simp add: props_size_def)
  qed
qed

lemma props_size_le: "props_size kvs \<le> size_list (size_prod (\<lambda>_. 0) size) kvs"
  by (induction kvs) (auto simp: props_size_def)

lemma own_entries_size:
  "typeof obj = ''object'' \<Longrightarrow> own_entries obj = Inr kvs \<Longrightarrow> props_size kvs \<le> size obj"
proof (cases obj)
  case (JArr xs)
  assume "own_entries obj = Inr kvs"
  with JArr props_size_zip [of "index_keys (length xs)" xs] show ?thesis by simp
next
  case (JObj ps)
  assume "own_entries obj = Inr kvs"
  with JObj props_size_le [of ps] show ?thesis by simp
next
  case (JInst c ps)
  assume "own_entries obj = Inr kvs"
  with JInst props_size_le [of ps] show ?thesis by simp
qed auto

text \<open>
  \<^verbatim>\<open>function toDot(obj, div = '.', pre)\<close>, lines 105 to 127. The separator is called
  \<open>sep\<close> here (\<open>div\<close> is an operator of HOL) and is passed explicitly, the default
  being \<open>''.''\<close>. The prefix is \<open>None\<close> when the argument is absent or \<^verbatim>\<open>null\<close>
  (the test is \<^verbatim>\<open>pre != null\<close>) and \<open>Some p\<close> for a string \<open>p\<close>. \<open>toDot_forEach\<close> is
  the loop \<^verbatim>\<open>Object.keys(obj).forEach(key => ...)\<close> with the object \<^verbatim>\<open>iteration\<close> that
  the loop fills.
\<close>

function toDot :: "jsval \<Rightarrow> string \<Rightarrow> string option \<Rightarrow> error + props"
  and toDot_forEach :: "props \<Rightarrow> string \<Rightarrow> string \<Rightarrow> props \<Rightarrow> error + props"
where
  "toDot obj sep pre =
     (if typeof obj \<noteq> ''object'' then Inl InvalidArgument
      else (case own_entries obj of
              Inl e \<Rightarrow> Inl e
            | Inr kvs \<Rightarrow>
                toDot_forEach kvs sep (case pre of Some p \<Rightarrow> p @ sep | None \<Rightarrow> '''') []))"
| "toDot_forEach [] sep pre iteration = Inr iteration"
| "toDot_forEach ((key, v) # rest) sep pre iteration =
     (if isPlainObject v then
        (case toDot v sep (Some (pre @ key)) of
           Inl e \<Rightarrow> Inl e
         | Inr sub \<Rightarrow> toDot_forEach rest sep pre (object_assign iteration sub))
      else toDot_forEach rest sep pre (set_prop iteration (pre @ key) v))"
  by pat_completeness auto
termination
  by (relation "measure (\<lambda>x. case x of
            Inl (obj, s, p) \<Rightarrow> 2 * size obj + 2
          | Inr (kvs, s, p, it) \<Rightarrow> 2 * props_size kvs + 1)")
     (auto dest: own_entries_size simp: props_size_def)

section \<open>Leaf paths\<close>

text \<open>
  The words of the specification of the flattener, to compare \<open>toDot\<close> with: a value
  that is not a plain nested mapping is a leaf under its key, and the leaves of a plain
  nested mapping are reached through its key, the separator and their own path.
  \<open>leaf sep kvs q w\<close>: in the object \<open>kvs\<close>, the path \<open>q\<close> leads to the leaf \<open>w\<close>.
\<close>

inductive leaf :: "string \<Rightarrow> props \<Rightarrow> string \<Rightarrow> jsval \<Rightarrow> bool" for sep :: string where
  leaf_here: "(k, v) \<in> set kvs \<Longrightarrow> \<not> isPlainObject v \<Longrightarrow> leaf sep kvs k v"
| leaf_nested: "(k, JObj sub) \<in> set kvs \<Longrightarrow> leaf sep sub p v \<Longrightarrow> leaf sep kvs (k @ sep @ p) v"

text \<open>The prefix every key of a result starts with: \<open>pre + sep\<close>, or nothing when
  the prefix is absent.\<close>

definition path_prefix :: "string option \<Rightarrow> string \<Rightarrow> string" where
  "path_prefix pre sep = (case pre of Some p \<Rightarrow> p @ sep | None \<Rightarrow> [])"


text \<open>The leaf paths of an object, each behind the prefix.\<close>

definition leaf_keys :: "string \<Rightarrow> string \<Rightarrow> props \<Rightarrow> string set" where
  "leaf_keys sep pre kvs = {p. \<exists>q w. p = pre @ q \<and> leaf sep kvs q w}"

section \<open>The backing collection\<close>

text \<open>
  The collections of the backing store (monk over MongoDB) are not part of the source:
  the program only calls \<^verbatim>\<open>insert\<close>, \<^verbatim>\<open>find\<close> and \<^verbatim>\<open>findOneAndUpdate\<close> on them.
  They are modelled here from the specification (sections 4.2, 4.3 and 6) and, where it
  is silent, from what the backing store does. A table is the list of its documents in
  insertion order; \<open>fault\<close> is the error with which the backing store fails its next
  call (network, timeout), if it does. The generated \<^verbatim>\<open>_id\<close> is not modelled.
\<close>

type_synonym doc = props

record table =
  docs :: "doc list"
  fault :: "jsval option"

text \<open>Modelled from the spec: what a call hands to its callback, \<^verbatim>\<open>cb(err)\<close> or
  \<^verbatim>\<open>cb(null, result)\<close>.\<close>

datatype 'a reply = Failed jsval | Done 'a

definition store_error :: "string \<Rightarrow> jsval" where
  "store_error msg = JInst ''Error'' [(''message'', JStr msg)]"

text \<open>Modelled from the spec: an exact-match filter; every field of the filter is a
  field of the document, with an equal value.\<close>

definition matches :: "props \<Rightarrow> doc \<Rightarrow> bool" where
  "matches flt d = list_all (\<lambda>(k, v). map_of d k = Some v) flt"

text \<open>Modelled from the spec: a dot-joined key is a path into the document, so that
  \<^verbatim>\<open>'a.b'\<close> is the field \<^verbatim>\<open>b\<close> of the embedded document \<^verbatim>\<open>a\<close>.\<close>

fun split_path :: "string \<Rightarrow> string list" where
  "split_path [] = [[]]"
| "split_path (c # cs) =
     (if c = CHR ''.'' then [] # split_path cs
      else (case split_path cs of [] \<Rightarrow> [[c]] | p # ps \<Rightarrow> (c # p) # ps))"

text \<open>Modelled from the spec: the value a document holds at a path, read through its
  embedded documents.\<close>

fun get_path :: "string list \<Rightarrow> doc \<Rightarrow> jsval option" where
  "get_path [] d = None"
| "get_path [k] d = map_of d k"
| "get_path (k # ks) d = (case map_of d k of Some (JObj sub) \<Rightarrow> get_path ks sub | _ \<Rightarrow> None)"

text \<open>
  Modelled from the spec: the merge-style update \<^verbatim>\<open>$set\<close> of one path. The last name of
  the path is assigned; the embedded documents on the way are kept and entered, a missing
  one is created, and a value that is not a document cannot be entered (the backing
  store reports an error; a path through an array element is not modelled and is an
  error here too).
\<close>

fun set_path :: "string list \<Rightarrow> jsval \<Rightarrow> doc \<Rightarrow> jsval + doc" where
  "set_path [] v d = Inl (store_error ''empty path'')"
| "set_path [k] v d = Inr (set_prop d k v)"
| "set_path (k # ks) v d =
     (case map_of d k of
        None \<Rightarrow>
          (case set_path ks v [] of Inl e \<Rightarrow> Inl e | Inr sub' \<Rightarrow> Inr (set_prop d k (JObj sub')))
      | Some (JObj sub) \<Rightarrow>
          (case set_path ks v sub of Inl e \<Rightarrow> Inl e | Inr sub' \<Rightarrow> Inr (set_prop d k (JObj sub')))
      | Some other \<Rightarrow> Inl (store_error ''cannot create field''))"

text \<open>Modelled from the spec: the \<^verbatim>\<open>$set\<close> of a whole patch, one path after the other.\<close>

fun apply_set :: "props \<Rightarrow> doc \<Rightarrow> jsval + doc" where
  "apply_set [] d = Inr d"
| "apply_set ((k, v) # rest) d =
     (case set_path (split_path k) v d of Inl e \<Rightarrow> Inl e | Inr d' \<Rightarrow> apply_set rest d')"

text \<open>Modelled from the spec: what the backing store refuses in one \<^verbatim>\<open>$set\<close>. The spec
  leaves it to the backing store, which refuses an empty field name in a path, and two
  paths of which one leads through the other.\<close>

definition valid_path :: "string list \<Rightarrow> bool" where
  "valid_path p = (p \<noteq> [] \<and> list_all (\<lambda>k. k \<noteq> []) p)"

definition apart :: "string list \<Rightarrow> string list \<Rightarrow> bool" where
  "apart p q = (\<not> prefix p q \<and> \<not> prefix q p)"

fun conflict_free :: "string list list \<Rightarrow> bool" where
  "conflict_free [] = True"
| "conflict_free (p # ps) = (list_all (apart p) ps \<and> conflict_free ps)"

text \<open>
  Modelled from the spec: the upsert. The first document that matches the filter is
  updated in place; when none matches, a new document is made of the filter's fields
  and the update, and appended. The result is the document as it is stored.
\<close>

fun upsert_docs :: "props \<Rightarrow> props \<Rightarrow> doc list \<Rightarrow> jsval + (doc \<times> doc list)" where
  "upsert_docs flt patch [] =
     (case apply_set patch flt of Inl e \<Rightarrow> Inl e | Inr d' \<Rightarrow> Inr (d', [d']))"
| "upsert_docs flt patch (d # ds) =
     (if matches flt d then
        (case apply_set patch d of Inl e \<Rightarrow> Inl e | Inr d' \<Rightarrow> Inr (d', d' # ds))
      else
        (case upsert_docs flt patch ds of
           Inl e \<Rightarrow> Inl e
         | Inr (d', ds') \<Rightarrow> Inr (d', d # ds')))"

text \<open>
  Modelled from the spec: the call
  \<^verbatim>\<open>table.findOneAndUpdate(filter, {$set: patch}, {upsert: true, returnNewDocument: true}, cb)\<close>.
  The spec also says that the call fails for a record without \<^verbatim>\<open>id\<close> (the filter value
  is then \<^verbatim>\<open>undefined\<close>).
\<close>

definition tbl_findOneAndUpdate :: "props \<Rightarrow> props \<Rightarrow> table \<Rightarrow> doc reply \<times> table" where
  "tbl_findOneAndUpdate flt patch t =
     (case fault t of
        Some e \<Rightarrow> (Failed e, t)
      | None \<Rightarrow>
          if list_ex (\<lambda>(k, v). v = JUndefined) flt then
            (Failed (store_error ''undefined in filter''), t)
          else if \<not> list_all valid_path (map (split_path \<circ> fst) patch) then
            (Failed (store_error ''empty field name''), t)
          else if \<not> conflict_free (map (split_path \<circ> fst) patch) then
            (Failed (store_error ''conflicting paths''), t)
          else
            (case upsert_docs flt patch (docs t) of
               Inl e \<Rightarrow> (Failed e, t)
             | Inr (d', ds') \<Rightarrow> (Done d', t\<lparr>docs := ds'\<rparr>)))"

text \<open>Modelled from the spec: the call \<^verbatim>\<open>table.insert(doc, {returnNewDocument: true}, cb)\<close>;
  the record is stored verbatim as a new document.\<close>

definition tbl_insert :: "doc \<Rightarrow> table \<Rightarrow> doc reply \<times> table" where
  "tbl_insert d t =
     (case fault t of
        Some e \<Rightarrow> (Failed e, t)
      | None \<Rightarrow> (Done d, t\<lparr>docs := docs t @ [d]\<rparr>))"

text \<open>
  Modelled from the spec: the order of a sort on a field. Only numbers are ordered here,
  which is what the \<^verbatim>\<open>date\<close> of a history entry is; a document without a number in the
  field comes first in ascending order, as a missing field does in the backing store.
\<close>

definition field_key :: "string \<Rightarrow> doc \<Rightarrow> int option" where
  "field_key f d = (case map_of d f of Some (JNum t) \<Rightarrow> Some t | _ \<Rightarrow> None)"

text \<open>
  Modelled from the spec: the call \<^verbatim>\<open>table.find(filter, {limit: n, sort: {f: -1}}, cb)\<close>
  gives the documents that match the filter, sorted descending by the field \<open>f\<close>,
  capped at \<open>n\<close> results.
\<close>

definition tbl_find_sorted :: "props \<Rightarrow> nat \<Rightarrow> string \<Rightarrow> table \<Rightarrow> doc list reply" where
  "tbl_find_sorted flt n f t =
     (case fault t of
        Some e \<Rightarrow> Failed e
      | None \<Rightarrow> Done (take n (rev (sort_key (field_key f) (filter (matches flt) (docs t))))))"

section \<open>The zone store\<close>

text \<open>
  \<^verbatim>\<open>getStorage(db, zone)\<close>, lines 136 to 192: the operations of a zone on its table. A
  record is a plain object, given by its properties. Each operation passes its callback
  to the table, so its result is the reply the callback receives, with the table
  afterwards; \<open>Inl\<close> is an error thrown before the table is called.
\<close>

definition save :: "props \<Rightarrow> table \<Rightarrow> error + (doc reply \<times> table)" where
  "save data t =
     (case get_prop (JObj data) ''id'' of
        Inl e \<Rightarrow> Inl e
      | Inr idv \<Rightarrow>
          (case toDot (JObj data) ''.'' None of
             Inl e \<Rightarrow> Inl e
           | Inr patch \<Rightarrow> Inr (tbl_findOneAndUpdate [(''id'', idv)] patch t)))"

definition insert_record :: "props \<Rightarrow> table \<Rightarrow> error + (doc reply \<times> table)" where
  "insert_record data t = Inr (tbl_insert data t)"

definition update :: "props \<Rightarrow> table \<Rightarrow> error + (doc reply \<times> table)" where
  "update data t =
     (case get_prop (JObj data) ''id'' of
        Inl e \<Rightarrow> Inl e
      | Inr idv \<Rightarrow> Inr (tbl_findOneAndUpdate [(''id'', idv)] data t))"

section \<open>The history extension\<close>

text \<open>
  How a promise of the history functions ends: resolved, rejected, or never settled
  because the callback of the table threw before it reached \<^verbatim>\<open>resolve\<close> or \<^verbatim>\<open>reject\<close>.
\<close>

datatype promise = Resolved jsval | Rejected jsval | Unsettled error

text \<open>Modelled from the spec: the arguments \<^verbatim>\<open>(err, result)\<close> of a callback. The backing
  store calls \<^verbatim>\<open>cb(err)\<close> on failure, so that the result is \<^verbatim>\<open>undefined\<close>, and
  \<^verbatim>\<open>cb(null, result)\<close> otherwise.\<close>

fun reply_err :: "'a reply \<Rightarrow> jsval" where
  "reply_err (Failed e) = e"
| "reply_err (Done r) = JNull"

fun reply_docs :: "doc list reply \<Rightarrow> jsval" where
  "reply_docs (Failed e) = JUndefined"
| "reply_docs (Done ds) = JArr (map JObj ds)"

text \<open>\<^verbatim>\<open>storage.history.addToHistory\<close>, lines 58 to 68; \<open>now\<close> is the value of \<^verbatim>\<open>Date.now()\<close>.\<close>

definition addToHistory :: "jsval \<Rightarrow> jsval \<Rightarrow> int \<Rightarrow> table \<Rightarrow> error + (promise \<times> table)" where
  "addToHistory message user now t =
     (let hist = [(''userId'', user), (''message'', message), (''date'', JNum now)] in
      case insert_record hist t of
        Inl e \<Rightarrow> Inl e
      | Inr (r, t') \<Rightarrow>
          Inr (if truthy (reply_err r) then Rejected (reply_err r) else Resolved (JObj hist), t'))"

text \<open>
  The callback of \<^verbatim>\<open>table.find\<close> in \<^verbatim>\<open>getHistoryForUser\<close>, lines 75 to 84: it reads
  \<^verbatim>\<open>history.length\<close> for its log line first, then looks at \<^verbatim>\<open>err\<close>, then reverses.
\<close>

definition history_callback :: "jsval \<Rightarrow> jsval \<Rightarrow> promise" where
  "history_callback err history =
     (case get_prop history ''length'' of
        Inl e \<Rightarrow> Unsettled e
      | Inr len \<Rightarrow>
          if truthy err then Rejected err
          else (case history of JArr xs \<Rightarrow> Resolved (JArr (rev xs)) | _ \<Rightarrow> Unsettled TypeError))"

text \<open>\<^verbatim>\<open>storage.history.getHistoryForUser\<close>, lines 70 to 86, on the table of the zone
  \<^verbatim>\<open>history\<close>.\<close>

definition getHistoryForUser :: "jsval \<Rightarrow> nat \<Rightarrow> table \<Rightarrow> promise" where
  "getHistoryForUser user limit t =
     (let r = tbl_find_sorted [(''userId'', user)] limit ''date'' t in
      history_callback (reply_err r) (reply_docs r))"

section \<open>The factory\<close>

text \<open>
  \<^verbatim>\<open>module.exports = function(config)\<close>, lines 12 to 94. What it does to the outside is
  recorded as a list of events: the connection \<^verbatim>\<open>monk(uri, options)\<close>, and
  \<^verbatim>\<open>db.get(zone)\<close> for each zone store it constructs. A zone store is given by the name
  of its zone and by whether it carries the two history functions.
\<close>

datatype event = Connect jsval jsval | GetCollection string

record zone_store =
  zone :: string
  history_methods :: bool

type_synonym storage = "(string \<times> zone_store) list"

definition getStorage :: "string \<Rightarrow> zone_store" where
  "getStorage z = \<lparr>zone = z, history_methods = False\<rparr>"

definition default_tables :: "string list" where
  "default_tables = [''teams'', ''channels'', ''users'', ''history'']"

fun string_entries :: "jsval list \<Rightarrow> string list" where
  "string_entries [] = []"
| "string_entries (JStr s # xs) = s # string_entries xs"
| "string_entries (x # xs) = string_entries xs"

text \<open>
  Lines 31 to 36: \<^verbatim>\<open>config.tables && config.tables.forEach(...)\<close>. A value that is truthy
  and has no \<^verbatim>\<open>forEach\<close> (anything but an array among the values modelled here) makes
  the call throw a \<^verbatim>\<open>TypeError\<close>.
\<close>

fun table_names :: "jsval \<Rightarrow> error + string list" where
  "table_names tables =
     (if \<not> truthy tables then Inr default_tables
      else (case tables of
              JArr xs \<Rightarrow> Inr (default_tables @ string_entries xs)
            | _ \<Rightarrow> Inl TypeError))"

fun make_stores :: "string list \<Rightarrow> storage \<Rightarrow> storage" where
  "make_stores [] st = st"
| "make_stores (z # zs) st = make_stores zs (set_prop st z (getStorage z))"

definition factory :: "jsval \<Rightarrow> event list \<times> (error + storage)" where
  "factory config =
     (if \<not> truthy config then ([], Inl NeedMongoAddress)
      else (case get_prop config ''mongoUri'' of
        Inl e \<Rightarrow> ([], Inl e)
      | Inr uri \<Rightarrow>
          if \<not> truthy uri then ([], Inl NeedMongoAddress)
          else (case get_prop config ''mongoOptions'' of
            Inl e \<Rightarrow> ([], Inl e)
          | Inr opts \<Rightarrow>
              (case get_prop config ''tables'' of
                 Inl e \<Rightarrow> ([Connect uri opts], Inl e)
               | Inr tables \<Rightarrow>
                   (case table_names tables of
                      Inl e \<Rightarrow> ([Connect uri opts], Inl e)
                    | Inr zones \<Rightarrow>
                        (let st = make_stores zones [];
                             evs = Connect uri opts # map GetCollection zones
                         in case map_of st ''history'' of
                              Some h \<Rightarrow>
                                (evs, Inr (set_prop st ''history'' (h\<lparr>history_methods := True\<rparr>)))
                            | None \<Rightarrow> (evs, Inl UnableToAddHistory)))))))"

section \<open>The words of the specification about the tables\<close>

text \<open>The entries of a user in the history table, and the entry that \<^verbatim>\<open>addToHistory\<close>
  constructs on line 61.\<close>

definition entries_of :: "jsval \<Rightarrow> table \<Rightarrow> doc list" where
  "entries_of user t = filter (matches [(''userId'', user)]) (docs t)"

definition entry :: "jsval \<Rightarrow> jsval \<Rightarrow> int \<Rightarrow> doc" where
  "entry user message now = [(''userId'', user), (''message'', message), (''date'', JNum now)]"


text \<open>The document an upsert starts from: the first stored document that matches the
  filter, or, when there is none, a new document made of the fields of the filter.\<close>

definition base_doc :: "props \<Rightarrow> table \<Rightarrow> doc" where
  "base_doc flt t = (case find (matches flt) (docs t) of Some d \<Rightarrow> d | None \<Rightarrow> flt)"

section \<open>Properties of the flattener\<close>


lemma set_prop_map_of: "map_of (set_prop ps k v) = (map_of ps)(k \<mapsto> v)"
  by (induction ps k v rule: set_prop.induct) (auto simp: fun_eq_iff)

lemma set_prop_keys: "fst ` set (set_prop ps k v) = insert k (fst ` set ps)"
  by (induction ps k v rule: set_prop.induct) auto

lemma set_prop_distinct: "distinct (map fst ps) \<Longrightarrow> distinct (map fst (set_prop ps k v))"
  by (induction ps k v rule: set_prop.induct) (auto simp: set_prop_keys)


lemma object_assign_map_of:
  "distinct (map fst src) \<Longrightarrow>
   map_of (object_assign target src) p =
     (case map_of src p of Some v \<Rightarrow> Some v | None \<Rightarrow> map_of target p)"
proof (induction target src rule: object_assign.induct)
  case (1 target)
  then show ?case by simp
next
  case (2 target k v src)
  then have "map_of src k = None"
    by (simp add: map_of_eq_None_iff)
  with 2 show ?case by (auto simp: set_prop_map_of split: option.splits)
qed

lemma object_assign_keys:
  "fst ` set (object_assign target src) = fst ` set target \<union> fst ` set src"
  by (induction target src rule: object_assign.induct) (auto simp: set_prop_keys)

lemma object_assign_distinct:
  "distinct (map fst target) \<Longrightarrow> distinct (map fst (object_assign target src))"
  by (induction target src rule: object_assign.induct) (auto simp: set_prop_distinct)


lemma leaf_Nil: "\<not> leaf sep [] q w"
  by (auto elim: leaf.cases)

lemma leaf_mono: "leaf sep kvs q w \<Longrightarrow> set kvs \<subseteq> set kvs' \<Longrightarrow> leaf sep kvs' q w"
  by (induction rule: leaf.induct) (auto intro: leaf.intros)

lemma leaf_Cons:
  "leaf sep ((k, v) # rest) q w \<longleftrightarrow>
     (\<not> isPlainObject v \<and> q = k \<and> w = v) \<or>
     (\<exists>sub p. v = JObj sub \<and> leaf sep sub p w \<and> q = k @ sep @ p) \<or>
     leaf sep rest q w"
  (is "?L \<longleftrightarrow> ?A \<or> ?B \<or> ?C")
proof
  assume ?L
  then show "?A \<or> ?B \<or> ?C"
  proof (cases rule: leaf.cases)
    case (leaf_here)
    then show ?thesis using leaf.leaf_here [of q w rest sep] by auto
  next
    case (leaf_nested k' sub p)
    then show ?thesis using leaf.leaf_nested [of k' sub rest sep p w] by auto
  qed
next
  assume "?A \<or> ?B \<or> ?C"
  then consider ?A | ?B | ?C by blast
  then show ?L
  proof cases
    case 1
    then show ?thesis using leaf.leaf_here [of k v "(k, v) # rest" sep] by simp
  next
    case 2
    then obtain sub p where "v = JObj sub" "leaf sep sub p w" "q = k @ sep @ p" by blast
    then show ?thesis using leaf.leaf_nested [of k sub "(k, v) # rest" sep p w] by simp
  next
    case 3
    then show ?thesis by (rule leaf_mono) auto
  qed
qed

lemma leaf_keys_Nil: "leaf_keys sep pre [] = {}"
  by (simp add: leaf_keys_def leaf_Nil)

lemma leaf_keys_Cons_leaf:
  assumes "\<not> isPlainObject v"
  shows "leaf_keys sep pre ((k, v) # rest) = insert (pre @ k) (leaf_keys sep pre rest)"
proof -
  from assms have nv: "\<And>sub. v \<noteq> JObj sub" by auto
  have "\<And>q w. leaf sep ((k, v) # rest) q w \<longleftrightarrow> (q = k \<and> w = v) \<or> leaf sep rest q w"
    using assms nv by (simp add: leaf_Cons)
  then show ?thesis
    unfolding leaf_keys_def by blast
qed

lemma leaf_keys_Cons_nested:
  "leaf_keys sep pre ((k, JObj sub) # rest) =
     leaf_keys sep (pre @ k @ sep) sub \<union> leaf_keys sep pre rest"
proof -
  have "\<And>q w. leaf sep ((k, JObj sub) # rest) q w \<longleftrightarrow>
          (\<exists>p. leaf sep sub p w \<and> q = k @ sep @ p) \<or> leaf sep rest q w"
    by (simp add: leaf_Cons)
  then show ?thesis
    unfolding leaf_keys_def by (simp add: set_eq_iff) blast
qed

lemma toDot_leaves:
  "typeof obj = ''object'' \<longrightarrow> (\<forall>kvs. own_entries obj = Inr kvs \<longrightarrow>
     (\<exists>out. toDot obj sep pre = Inr out \<and> distinct (map fst out) \<and>
        fst ` set out = leaf_keys sep (path_prefix pre sep) kvs \<and>
        (\<forall>p v. map_of out p = Some v \<longrightarrow> (\<exists>q. p = path_prefix pre sep @ q \<and> leaf sep kvs q v))))"
  "\<exists>out. toDot_forEach kvs sep pre' it = Inr out \<and>
      (distinct (map fst it) \<longrightarrow> distinct (map fst out)) \<and>
      fst ` set out = fst ` set it \<union> leaf_keys sep pre' kvs \<and>
      (\<forall>p v. map_of out p = Some v \<longrightarrow>
         map_of it p = Some v \<or> (\<exists>q. p = pre' @ q \<and> leaf sep kvs q v))"
proof (induction obj sep pre and kvs sep pre' it rule: toDot_toDot_forEach.induct)
  case (1 obj sep pre)
  show ?case
  proof (intro impI allI)
    fix kvs
    assume t: "typeof obj = ''object''" and e: "own_entries obj = Inr kvs"
    have pp: "(case pre of Some p \<Rightarrow> p @ sep | None \<Rightarrow> []) = path_prefix pre sep"
      by (simp add: path_prefix_def)
    from t have nt: "\<not> typeof obj \<noteq> ''object''" by simp
    from 1 [OF nt e] obtain out where
      o: "toDot_forEach kvs sep (path_prefix pre sep) [] = Inr out"
         "distinct (map fst out)"
         "fst ` set out = leaf_keys sep (path_prefix pre sep) kvs"
         "\<forall>p v. map_of out p = Some v \<longrightarrow> (\<exists>q. p = path_prefix pre sep @ q \<and> leaf sep kvs q v)"
      unfolding pp by auto
    from t e o(1) have "toDot obj sep pre = Inr out" by (simp add: path_prefix_def)
    with o(2,3,4) show "\<exists>out. toDot obj sep pre = Inr out \<and> distinct (map fst out) \<and>
        fst ` set out = leaf_keys sep (path_prefix pre sep) kvs \<and>
        (\<forall>p v. map_of out p = Some v \<longrightarrow> (\<exists>q. p = path_prefix pre sep @ q \<and> leaf sep kvs q v))"
      by blast
  qed
next
  case (2 sep pre iteration)
  then show ?case by (simp add: leaf_keys_Nil)
next
  case (3 key v rest sep pre iteration)
  show ?case
  proof (cases "isPlainObject v")
    case False
    from 3(3) [OF False] obtain out where
      o: "toDot_forEach rest sep pre (set_prop iteration (pre @ key) v) = Inr out"
         "distinct (map fst (set_prop iteration (pre @ key) v)) \<longrightarrow> distinct (map fst out)"
         "fst ` set out = fst ` set (set_prop iteration (pre @ key) v) \<union> leaf_keys sep pre rest"
         "\<forall>p w. map_of out p = Some w \<longrightarrow>
            map_of (set_prop iteration (pre @ key) v) p = Some w \<or> (\<exists>q. p = pre @ q \<and> leaf sep rest q w)"
      by blast
    have a: "toDot_forEach ((key, v) # rest) sep pre iteration = Inr out"
      using False o(1) by simp
    have b: "distinct (map fst iteration) \<longrightarrow> distinct (map fst out)"
      using o(2) by (simp add: set_prop_distinct)
    have c: "fst ` set out = fst ` set iteration \<union> leaf_keys sep pre ((key, v) # rest)"
      unfolding o(3) set_prop_keys leaf_keys_Cons_leaf [OF False] by blast
    have d: "\<forall>p w. map_of out p = Some w \<longrightarrow>
            map_of iteration p = Some w \<or> (\<exists>q. p = pre @ q \<and> leaf sep ((key, v) # rest) q w)"
    proof (intro allI impI)
      fix p w
      assume "map_of out p = Some w"
      with o(4) consider "map_of (set_prop iteration (pre @ key) v) p = Some w"
        | "\<exists>q. p = pre @ q \<and> leaf sep rest q w" by blast
      then show "map_of iteration p = Some w \<or> (\<exists>q. p = pre @ q \<and> leaf sep ((key, v) # rest) q w)"
      proof cases
        case 1
        show ?thesis
        proof (cases "p = pre @ key")
          case True
          with 1 have "w = v" by (simp add: set_prop_map_of)
          with False have "leaf sep ((key, v) # rest) key w" by (simp add: leaf_Cons)
          with True show ?thesis by blast
        next
          case False
          with 1 show ?thesis by (simp add: set_prop_map_of)
        qed
      next
        case 2
        then obtain q where q: "p = pre @ q" "leaf sep rest q w" by blast
        then have "leaf sep ((key, v) # rest) q w" by (simp add: leaf_Cons)
        with q(1) show ?thesis by blast
      qed
    qed
    from a b c d show ?thesis by blast
  next
    case True
    then obtain sub where v: "v = JObj sub" by (cases v) auto
    have e: "own_entries v = Inr sub" "typeof v = ''object''" using v by simp_all
    have pp: "path_prefix (Some (pre @ key)) sep = pre @ key @ sep" by (simp add: path_prefix_def)
    from 3(1) [OF True] e obtain s where
      s: "toDot v sep (Some (pre @ key)) = Inr s" "distinct (map fst s)"
         "fst ` set s = leaf_keys sep (pre @ key @ sep) sub"
         "\<forall>p w. map_of s p = Some w \<longrightarrow> (\<exists>q. p = (pre @ key @ sep) @ q \<and> leaf sep sub q w)"
      unfolding pp by blast
    from 3(2) [OF True s(1)] obtain out where
      o: "toDot_forEach rest sep pre (object_assign iteration s) = Inr out"
         "distinct (map fst (object_assign iteration s)) \<longrightarrow> distinct (map fst out)"
         "fst ` set out = fst ` set (object_assign iteration s) \<union> leaf_keys sep pre rest"
         "\<forall>p w. map_of out p = Some w \<longrightarrow>
            map_of (object_assign iteration s) p = Some w \<or> (\<exists>q. p = pre @ q \<and> leaf sep rest q w)"
      by blast
    have a: "toDot_forEach ((key, v) # rest) sep pre iteration = Inr out"
      using True s(1) o(1) by simp
    have b: "distinct (map fst iteration) \<longrightarrow> distinct (map fst out)"
      using o(2) by (simp add: object_assign_distinct)
    have c: "fst ` set out = fst ` set iteration \<union> leaf_keys sep pre ((key, v) # rest)"
      unfolding o(3) object_assign_keys s(3) v leaf_keys_Cons_nested by blast
    have d: "\<forall>p w. map_of out p = Some w \<longrightarrow>
            map_of iteration p = Some w \<or> (\<exists>q. p = pre @ q \<and> leaf sep ((key, v) # rest) q w)"
    proof (intro allI impI)
      fix p w
      assume "map_of out p = Some w"
      with o(4) consider "map_of (object_assign iteration s) p = Some w"
        | "\<exists>q. p = pre @ q \<and> leaf sep rest q w" by blast
      then show "map_of iteration p = Some w \<or> (\<exists>q. p = pre @ q \<and> leaf sep ((key, v) # rest) q w)"
      proof cases
        case 1
        show ?thesis
        proof (cases "map_of s p")
          case None
          with 1 show ?thesis by (simp add: object_assign_map_of [OF s(2)])
        next
          case (Some w')
          with 1 have "w' = w" by (simp add: object_assign_map_of [OF s(2)])
          with Some s(4) obtain q where q: "p = (pre @ key @ sep) @ q" "leaf sep sub q w" by blast
          then have "leaf sep ((key, v) # rest) (key @ sep @ q) w"
            using v leaf_Cons [of sep key v rest "key @ sep @ q" w] by blast
          with q(1) have "p = pre @ (key @ sep @ q) \<and> leaf sep ((key, v) # rest) (key @ sep @ q) w"
            by simp
          then show ?thesis by blast
        qed
      next
        case 2
        then obtain q where q: "p = pre @ q" "leaf sep rest q w" by blast
        then have "leaf sep ((key, v) # rest) q w" by (simp add: leaf_Cons)
        with q(1) show ?thesis by blast
      qed
    qed
    from a b c d show ?thesis by blast
  qed
qed


lemma leaf_not_plain: "leaf sep kvs q w \<Longrightarrow> \<not> isPlainObject w"
  by (induction rule: leaf.induct) auto


lemma toDot_object:
  assumes "typeof obj = ''object''" and "own_entries obj = Inr kvs"
  obtains out where "toDot obj sep pre = Inr out" and "distinct (map fst out)"
    and "fst ` set out = leaf_keys sep (path_prefix pre sep) kvs"
    and "\<And>p v. (p, v) \<in> set out \<Longrightarrow> \<exists>q. p = path_prefix pre sep @ q \<and> leaf sep kvs q v"
proof -
  from toDot_leaves(1) [of obj sep pre] assms obtain out where
    o: "toDot obj sep pre = Inr out" "distinct (map fst out)"
       "fst ` set out = leaf_keys sep (path_prefix pre sep) kvs"
       "\<forall>p v. map_of out p = Some v \<longrightarrow> (\<exists>q. p = path_prefix pre sep @ q \<and> leaf sep kvs q v)"
    by blast
  have "\<And>p v. (p, v) \<in> set out \<Longrightarrow> \<exists>q. p = path_prefix pre sep @ q \<and> leaf sep kvs q v"
    using o(2,4) by (simp add: map_of_eq_Some_iff)
  with o(1,2,3) show ?thesis by (rule that)
qed



section \<open>Properties of the factory\<close>

lemma make_stores_map_of:
  "map_of (make_stores zs st) k = (if k \<in> set zs then Some (getStorage k) else map_of st k)"
  by (induction zs st rule: make_stores.induct) (auto simp: set_prop_map_of)

lemma table_names_history: "table_names tables = Inr zones \<Longrightarrow> ''history'' \<in> set zones"
  by (auto simp: default_tables_def split: if_splits jsval.splits)

lemma factory_zones:
  assumes "truthy config" and "get_prop config ''mongoUri'' = Inr uri" and "truthy uri"
    and "get_prop config ''mongoOptions'' = Inr opts"
    and "get_prop config ''tables'' = Inr tables" and "table_names tables = Inr zones"
  shows "factory config =
           (Connect uri opts # map GetCollection zones,
            Inr (set_prop (make_stores zones []) ''history''
                   \<lparr>zone = ''history'', history_methods = True\<rparr>))"
proof -
  from assms(6) have "''history'' \<in> set zones" by (rule table_names_history)
  then have "map_of (make_stores zones []) ''history'' = Some (getStorage ''history'')"
    by (simp add: make_stores_map_of)
  with assms show ?thesis
    by (simp add: factory_def getStorage_def del: table_names.simps)
qed

lemma get_prop_truthy: "truthy v \<Longrightarrow> \<exists>w. get_prop v k = Inr w"
  by (cases v) auto

section \<open>Properties of the history functions\<close>

lemma getHistoryForUser_result:
  "fault t = None \<Longrightarrow>
   getHistoryForUser user n t =
     Resolved (JArr (map JObj (drop (length (entries_of user t) - n)
                                 (sort_key (field_key ''date'') (entries_of user t)))))"
proof -
  assume f: "fault t = None"
  let ?S = "sort_key (field_key ''date'') (entries_of user t)"
  have "rev (take n (rev ?S)) = drop (length (entries_of user t) - n) ?S"
    by (simp add: rev_take)
  then have "rev (map JObj (take n (rev ?S))) =
      map JObj (drop (length (entries_of user t) - n) ?S)"
    by (simp add: rev_map)
  with f show ?thesis
    by (simp add: getHistoryForUser_def tbl_find_sorted_def history_callback_def entries_of_def)
qed

lemma last_of_sorted:
  fixes f :: "'a \<Rightarrow> 'b::linorder"
  assumes "res = drop (length es - n) (sort_key f es)"
  shows "sorted (map f res)" and "length res = min n (length es)" and "mset res \<subseteq># mset es"
    and "\<forall>x \<in># mset es - mset res. \<forall>y \<in> set res. f x \<le> f y"
proof -
  let ?S = "sort_key f es" and ?k = "length es - n"
  have S: "?S = take ?k ?S @ res" using assms by simp
  have srt: "sorted (map f ?S)" by simp
  have "map f res = drop ?k (map f ?S)" using assms by (simp add: drop_map)
  with srt show "sorted (map f res)" by (simp add: sorted_wrt_drop)
  show "length res = min n (length es)" using assms by auto
  have m: "mset es = mset (take ?k ?S) + mset res"
    using S by (metis mset_append mset_sort)
  then show "mset res \<subseteq># mset es" by simp
  from m have rest: "mset es - mset res = mset (take ?k ?S)" by simp
  have "sorted (map f (take ?k ?S) @ map f res)"
    using srt S by (metis map_append)
  then have "\<forall>x \<in> set (take ?k ?S). \<forall>y \<in> set res. f x \<le> f y"
    by (auto simp: sorted_append)
  with rest show "\<forall>x \<in># mset es - mset res. \<forall>y \<in> set res. f x \<le> f y" by simp
qed

lemma addToHistory_appends:
  "fault t = None \<Longrightarrow>
   addToHistory message user now t =
     Inr (Resolved (JObj (entry user message now)), t\<lparr>docs := docs t @ [entry user message now]\<rparr>)"
  by (simp add: addToHistory_def insert_record_def tbl_insert_def entry_def Let_def)

section \<open>Properties of the backing collection\<close>

lemma get_path_empty_doc: "get_path q [] = None"
  by (induction q "[] :: doc" rule: get_path.induct) auto

lemma get_path_Cons:
  "get_path (k # ks) d =
     (if ks = [] then map_of d k
      else (case map_of d k of Some (JObj sub) \<Rightarrow> get_path ks sub | _ \<Rightarrow> None))"
  by (cases ks) auto

lemma get_path_other_key:
  "k' \<noteq> k \<Longrightarrow> get_path (k' # qs) (set_prop d k v) = get_path (k' # qs) d"
  by (simp add: get_path_Cons set_prop_map_of)

lemma apart_Cons:
  "apart (k # ks) (k' # qs) \<longleftrightarrow> k \<noteq> k' \<or> apart ks qs"
  by (auto simp: apart_def)

lemma apart_Nil: "\<not> apart [] q" "\<not> apart p []"
  by (simp_all add: apart_def)

lemma set_path_get_same: "set_path p v d = Inr d' \<Longrightarrow> get_path p d' = Some v"
proof (induction p v d arbitrary: d' rule: set_path.induct)
  case (1 v d)
  then show ?case by simp
next
  case (2 k v d)
  then show ?case by (auto simp: set_prop_map_of)
next
  case (3 k k' ks v d)
  show ?case
  proof (cases "map_of d k")
    case None
    with "3.prems" obtain sub' where s: "set_path (k' # ks) v [] = Inr sub'"
      and d': "d' = set_prop d k (JObj sub')"
      by (auto split: sum.splits)
    from "3.IH"(1) [OF None s] have "get_path (k' # ks) sub' = Some v" .
    with d' show ?thesis by (simp add: set_prop_map_of)
  next
    case (Some w)
    with "3.prems" obtain sub where w: "w = JObj sub"
      by (cases w) (auto split: sum.splits)
    with Some "3.prems" obtain sub' where s: "set_path (k' # ks) v sub = Inr sub'"
      and d': "d' = set_prop d k (JObj sub')"
      by (auto split: sum.splits)
    from "3.IH"(2) [OF Some w s] have "get_path (k' # ks) sub' = Some v" .
    with d' show ?thesis by (simp add: set_prop_map_of)
  qed
qed

lemma set_path_get_apart:
  "set_path p v d = Inr d' \<Longrightarrow> apart p q \<Longrightarrow> get_path q d' = get_path q d"
proof (induction p v d arbitrary: d' q rule: set_path.induct)
  case (1 v d)
  then show ?case by simp
next
  case (2 k v d)
  then have d': "d' = set_prop d k v" by simp
  from "2.prems"(2) obtain k2 qs where q: "q = k2 # qs" by (cases q) (auto simp: apart_Nil)
  with "2.prems"(2) have "k2 \<noteq> k" by (auto simp: apart_Cons apart_Nil)
  with d' q show ?case by (simp add: get_path_other_key)
next
  case (3 k k' ks v d)
  from "3.prems"(2) obtain k2 qs where q: "q = k2 # qs" by (cases q) (auto simp: apart_Nil)
  show ?case
  proof (cases "k2 = k")
    case False
    from "3.prems"(1) obtain x where "d' = set_prop d k x"
      by (auto split: option.splits jsval.splits sum.splits)
    with False q show ?thesis by (simp add: get_path_other_key)
  next
    case True
    with q "3.prems"(2) have ap: "apart (k' # ks) qs" by (simp add: apart_Cons)
    then have qs: "qs \<noteq> []" by (auto simp: apart_Nil)
    show ?thesis
    proof (cases "map_of d k")
      case None
      with "3.prems" obtain sub' where s: "set_path (k' # ks) v [] = Inr sub'"
        and d': "d' = set_prop d k (JObj sub')"
        by (auto split: sum.splits)
      from "3.IH"(1) [OF None s ap] have "get_path qs sub' = get_path qs []" .
      with d' q True qs None show ?thesis
        by (simp add: get_path_Cons set_prop_map_of get_path_empty_doc)
    next
      case (Some w)
      with "3.prems" obtain sub where w: "w = JObj sub"
        by (cases w) (auto split: sum.splits)
      with Some "3.prems" obtain sub' where s: "set_path (k' # ks) v sub = Inr sub'"
        and d': "d' = set_prop d k (JObj sub')"
        by (auto split: sum.splits)
      from "3.IH"(2) [OF Some w s ap] have "get_path qs sub' = get_path qs sub" .
      with d' q True qs Some w show ?thesis
        by (simp add: get_path_Cons set_prop_map_of)
    qed
  qed
qed

lemma apart_sym: "apart p q \<Longrightarrow> apart q p"
  by (simp add: apart_def)

lemma apply_set_paths:
  "apply_set patch d = Inr d' \<Longrightarrow> conflict_free (map (split_path \<circ> fst) patch) \<Longrightarrow>
   (\<forall>(k, v) \<in> set patch. get_path (split_path k) d' = Some v) \<and>
   (\<forall>q. (\<forall>k \<in> fst ` set patch. apart (split_path k) q) \<longrightarrow> get_path q d' = get_path q d)"
proof (induction patch arbitrary: d)
  case Nil
  then show ?case by simp
next
  case (Cons kv patch)
  obtain k v where kv: "kv = (k, v)" by (cases kv)
  from Cons.prems(1) kv obtain d1 where d1: "set_path (split_path k) v d = Inr d1"
    and rest: "apply_set patch d1 = Inr d'"
    by (auto split: sum.splits)
  from Cons.prems(2) kv have cf: "conflict_free (map (split_path \<circ> fst) patch)"
    and ap: "\<forall>k' \<in> fst ` set patch. apart (split_path k) (split_path k')"
    by (auto simp: list_all_iff o_def)
  from Cons.IH [OF rest cf] have
    a: "\<forall>(k, v) \<in> set patch. get_path (split_path k) d' = Some v" and
    b: "\<forall>q. (\<forall>k \<in> fst ` set patch. apart (split_path k) q) \<longrightarrow> get_path q d' = get_path q d1"
    by simp_all
  have "get_path (split_path k) d' = get_path (split_path k) d1"
    using b ap by (auto intro: apart_sym)
  also have "\<dots> = Some v" using d1 by (rule set_path_get_same)
  finally have first: "get_path (split_path k) d' = Some v" .
  have frame: "get_path q d' = get_path q d"
    if "\<forall>k' \<in> fst ` set (kv # patch). apart (split_path k') q" for q
  proof -
    from that kv have "apart (split_path k) q" by simp
    with d1 have "get_path q d1 = get_path q d" by (rule set_path_get_apart)
    moreover from that b have "get_path q d' = get_path q d1" by simp
    ultimately show ?thesis by simp
  qed
  from first a frame kv show ?case by auto
qed

lemma upsert_docs_result:
  "upsert_docs flt patch ds = Inr (d', ds') \<Longrightarrow>
   (case find (matches flt) ds of
      None \<Rightarrow> apply_set patch flt = Inr d' \<and> ds' = ds @ [d']
    | Some d \<Rightarrow> apply_set patch d = Inr d' \<and>
        (\<exists>xs ys. ds = xs @ d # ys \<and> ds' = xs @ d' # ys \<and> (\<forall>x \<in> set xs. \<not> matches flt x)))"
proof (induction ds arbitrary: ds')
  case Nil
  then show ?case by (auto split: sum.splits)
next
  case (Cons x ds)
  show ?case
  proof (cases "matches flt x")
    case True
    with Cons.prems have "apply_set patch x = Inr d'" "ds' = d' # ds"
      by (auto split: sum.splits)
    then have "apply_set patch x = Inr d' \<and>
        (\<exists>xs ys. x # ds = xs @ x # ys \<and> ds' = xs @ d' # ys \<and> (\<forall>y \<in> set xs. \<not> matches flt y))"
      by (intro conjI exI [of _ "[]"] exI [of _ ds]) simp_all
    with True show ?thesis by simp
  next
    case False
    with Cons.prems obtain ds1 where r: "upsert_docs flt patch ds = Inr (d', ds1)"
      and ds': "ds' = x # ds1"
      by (auto split: sum.splits)
    note ih = Cons.IH [OF r]
    show ?thesis
    proof (cases "find (matches flt) ds")
      case None
      with ih False ds' show ?thesis by simp
    next
      case (Some d)
      with ih obtain xs ys where "apply_set patch d = Inr d'" "ds = xs @ d # ys"
        "ds1 = xs @ d' # ys" "\<forall>y \<in> set xs. \<not> matches flt y" by auto
      then have "apply_set patch d = Inr d' \<and>
        (\<exists>xs' ys'. x # ds = xs' @ d # ys' \<and> ds' = xs' @ d' # ys' \<and> (\<forall>y \<in> set xs'. \<not> matches flt y))"
        using False ds' by (intro conjI exI [of _ "x # xs"] exI [of _ ys]) simp_all
      with False Some show ?thesis by simp
    qed
  qed
qed


lemma split_path_no_dot: "CHR ''.'' \<notin> set k \<Longrightarrow> split_path k = [k]"
  by (induction k) auto


lemma tbl_findOneAndUpdate_done:
  assumes "tbl_findOneAndUpdate flt patch t = (Done d', t')"
  shows "\<forall>(k, v) \<in> set patch. get_path (split_path k) d' = Some v"
    and "\<forall>q. (\<forall>k \<in> fst ` set patch. apart (split_path k) q) \<longrightarrow>
           get_path q d' = get_path q (base_doc flt t)"
    and "case find (matches flt) (docs t) of
           None \<Rightarrow> docs t' = docs t @ [d']
         | Some d \<Rightarrow> \<exists>xs ys. docs t = xs @ d # ys \<and> docs t' = xs @ d' # ys \<and>
                       (\<forall>x \<in> set xs. \<not> matches flt x)"
proof -
  from assms have cf: "conflict_free (map (split_path \<circ> fst) patch)"
    by (auto simp: tbl_findOneAndUpdate_def split: option.splits if_splits)
  from assms obtain ds' where u: "upsert_docs flt patch (docs t) = Inr (d', ds')"
    and t': "t' = t\<lparr>docs := ds'\<rparr>"
    by (auto simp: tbl_findOneAndUpdate_def split: option.splits if_splits sum.splits)
  note r = upsert_docs_result [OF u]
  have a: "apply_set patch (base_doc flt t) = Inr d'"
    using r by (auto simp: base_doc_def split: option.splits)
  note p = apply_set_paths [OF a cf]
  from p show "\<forall>(k, v) \<in> set patch. get_path (split_path k) d' = Some v" by (rule conjunct1)
  from p show "\<forall>q. (\<forall>k \<in> fst ` set patch. apart (split_path k) q) \<longrightarrow>
           get_path q d' = get_path q (base_doc flt t)" by (rule conjunct2)
  from r t' show "case find (matches flt) (docs t) of
           None \<Rightarrow> docs t' = docs t @ [d']
         | Some d \<Rightarrow> \<exists>xs ys. docs t = xs @ d # ys \<and> docs t' = xs @ d' # ys \<and>
                       (\<forall>x \<in> set xs. \<not> matches flt x)"
    by (auto split: option.splits)
qed

lemma apply_set_flat:
  "\<forall>k \<in> fst ` set patch. CHR ''.'' \<notin> set k \<Longrightarrow> apply_set patch d = Inr (object_assign d patch)"
  by (induction patch arbitrary: d) (auto simp: split_path_no_dot)

lemma conflict_free_flat:
  "distinct (map fst patch) \<Longrightarrow> \<forall>k \<in> fst ` set patch. CHR ''.'' \<notin> set k \<Longrightarrow>
   conflict_free (map (split_path \<circ> fst) patch)"
proof (induction patch)
  case Nil
  then show ?case by simp
next
  case (Cons kv patch)
  have "apart (split_path (fst kv)) (split_path k')" if "k' \<in> fst ` set patch" for k'
  proof -
    from Cons.prems(1) have "fst kv \<notin> fst ` set patch" by simp
    with that have "k' \<noteq> fst kv" by blast
    moreover from that Cons.prems(2) have "CHR ''.'' \<notin> set k'" "CHR ''.'' \<notin> set (fst kv)"
      by auto
    ultimately have "k' \<noteq> fst kv" "CHR ''.'' \<notin> set k'" "CHR ''.'' \<notin> set (fst kv)"
      by simp_all
    then show ?thesis by (simp add: split_path_no_dot apart_def)
  qed
  with Cons show ?case by (auto simp: list_all_iff)
qed

lemma valid_path_flat:
  "\<forall>k \<in> fst ` set patch. k \<noteq> [] \<and> CHR ''.'' \<notin> set k \<Longrightarrow>
   list_all valid_path (map (split_path \<circ> fst) patch)"
  by (auto simp: list_all_iff valid_path_def split_path_no_dot)

lemma upsert_docs_flat:
  assumes "\<forall>k \<in> fst ` set patch. CHR ''.'' \<notin> set k"
  shows "\<exists>ds'. upsert_docs flt patch ds =
           Inr (object_assign (case find (matches flt) ds of Some d \<Rightarrow> d | None \<Rightarrow> flt) patch, ds')"
  by (induction ds) (auto simp: apply_set_flat [OF assms])

lemma tbl_findOneAndUpdate_flat:
  assumes "fault t = None" and "idv \<noteq> JUndefined" and "distinct (map fst patch)"
    and "\<forall>k \<in> fst ` set patch. k \<noteq> [] \<and> CHR ''.'' \<notin> set k"
  shows "\<exists>t'. tbl_findOneAndUpdate [(''id'', idv)] patch t =
           (Done (object_assign (base_doc [(''id'', idv)] t) patch), t')"
proof -
  from assms(4) have nd: "\<forall>k \<in> fst ` set patch. CHR ''.'' \<notin> set k" by blast
  from upsert_docs_flat [OF nd, of "[(''id'', idv)]" "docs t"] obtain ds' where
    "upsert_docs [(''id'', idv)] patch (docs t) =
       Inr (object_assign (base_doc [(''id'', idv)] t) patch, ds')"
    by (auto simp: base_doc_def)
  with assms(1,2) valid_path_flat [OF assms(4)] conflict_free_flat [OF assms(3) nd]
  show ?thesis by (simp add: tbl_findOneAndUpdate_def)
qed
section \<open>The flattener against its specification\<close>



text \<open>
  Claim C5, as stated, fails: an array given as the top-level value is not rejected. Its
  \<^verbatim>\<open>typeof\<close> is \<^verbatim>\<open>object\<close>, so it passes the guard of line 106 and is flattened under
  its index keys.
\<close>

theorem toDot_array_counterexample:
  "toDot (JArr [JNum 1, JNum 2]) ''.'' None = Inr [(''0'', JNum 1), (''1'', JNum 2)]"
  by code_simp

text \<open>
  Claim C5, amended. For every input whose \<^verbatim>\<open>typeof\<close> is not \<^verbatim>\<open>object\<close> (\<^verbatim>\<open>undefined\<close>,
  a boolean, a number such as 5, a string, a function) \<open>toDot\<close> fails with the error of
  its guard and returns no result; a top-level array is accepted and flattened under
  its index keys.
\<close>

theorem toDot_rejects_what_is_not_typeof_object:
  "(typeof obj \<noteq> ''object'' \<longrightarrow> toDot obj sep pre = Inl InvalidArgument) \<and>
   (\<exists>out. toDot (JArr xs) sep pre = Inr out \<and>
      fst ` set out = leaf_keys sep (path_prefix pre sep) (zip (index_keys (length xs)) xs))"
proof
  show "typeof obj \<noteq> ''object'' \<longrightarrow> toDot obj sep pre = Inl InvalidArgument" by simp
  have "typeof (JArr xs) = ''object''"
    and "own_entries (JArr xs) = Inr (zip (index_keys (length xs)) xs)" by simp_all
  then show "\<exists>out. toDot (JArr xs) sep pre = Inr out \<and>
      fst ` set out = leaf_keys sep (path_prefix pre sep) (zip (index_keys (length xs)) xs)"
    by (rule toDot_object) blast
qed

theorem toDot_rejects_witness:
  "typeof (JNum 5) \<noteq> ''object'' \<and> toDot (JNum 5) ''.'' None = Inl InvalidArgument"
  using toDot_rejects_what_is_not_typeof_object [of "JNum 5" "''.''" None "[]"]
  by simp

text \<open>
  What happens to \<^verbatim>\<open>null\<close>, whose \<^verbatim>\<open>typeof\<close> is \<^verbatim>\<open>object\<close> as well: it passes the guard
  and \<^verbatim>\<open>Object.keys\<close> throws.
\<close>

lemma toDot_null: "toDot JNull sep pre = Inl TypeError"
  by simp






section \<open>The factory and the history functions against their specification\<close>

text \<open>
  Claim C9. For every configuration that is absent (\<^verbatim>\<open>undefined\<close> or \<^verbatim>\<open>null\<close>) or lacks
  a \<^verbatim>\<open>mongoUri\<close> property, the factory throws its error at once: nothing has been done
  before, neither the connection nor the construction of a zone store, and no storage
  object is returned.
\<close>

theorem factory_needs_mongoUri:
  "config = JUndefined \<or> config = JNull \<or> get_prop config ''mongoUri'' = Inr JUndefined \<Longrightarrow>
   factory config = ([], Inl NeedMongoAddress)"
  by (auto simp: factory_def)

theorem factory_needs_mongoUri_witness:
  "get_prop (JObj [(''tables'', JArr [JStr ''extra''])]) ''mongoUri'' = Inr JUndefined \<and>
   factory (JObj [(''tables'', JArr [JStr ''extra''])]) = ([], Inl NeedMongoAddress) \<and>
   factory JUndefined = ([], Inl NeedMongoAddress)"
  using factory_needs_mongoUri [of "JObj [(''tables'', JArr [JStr ''extra''])]"]
    factory_needs_mongoUri [of JUndefined]
  by simp

text \<open>
  Claim C10, as stated, fails for a \<^verbatim>\<open>tables\<close> value that is truthy and not an array:
  \<^verbatim>\<open>config.tables.forEach\<close> is then not a function, the call of line 34 throws a
  \<^verbatim>\<open>TypeError\<close>, and no zone store is created, the one of \<^verbatim>\<open>history\<close> included.
\<close>

theorem factory_tables_counterexample:
  "factory (JObj [(''mongoUri'', JStr ''localhost/mydb''), (''tables'', JStr ''extra'')]) =
     ([Connect (JStr ''localhost/mydb'') JUndefined], Inl TypeError)"
  by (simp add: factory_def)

text \<open>
  Claim C10, amended. For every configuration the error \<^verbatim>\<open>Unable to add history support\<close>
  is unreachable: the construction never fails for lack of a history zone. For every
  configuration with a \<^verbatim>\<open>mongoUri\<close> whose \<^verbatim>\<open>tables\<close> value is absent, falsy or an array
  (with entries of any kind), the zone store of \<^verbatim>\<open>history\<close> is created, since
  \<^verbatim>\<open>history\<close> is in the default zone list, and carries the history functions.
\<close>

theorem history_error_unreachable:
  "snd (factory config) \<noteq> Inl UnableToAddHistory \<and>
   (truthy config \<and> get_prop config ''mongoUri'' = Inr uri \<and> truthy uri \<and>
    get_prop config ''tables'' = Inr tables \<and> (\<not> truthy tables \<or> tables = JArr xs) \<longrightarrow>
      (\<exists>evs st. factory config = (evs, Inr st) \<and> GetCollection ''history'' \<in> set evs \<and>
         map_of st ''history'' = Some \<lparr>zone = ''history'', history_methods = True\<rparr>))"
proof
  show "snd (factory config) \<noteq> Inl UnableToAddHistory"
  proof (cases "truthy config")
    case False
    then show ?thesis by (simp add: factory_def)
  next
    case True
    obtain uri where uri: "get_prop config ''mongoUri'' = Inr uri"
      using get_prop_truthy [OF True] by blast
    obtain opts where opts: "get_prop config ''mongoOptions'' = Inr opts"
      using get_prop_truthy [OF True] by blast
    obtain tables where tables: "get_prop config ''tables'' = Inr tables"
      using get_prop_truthy [OF True] by blast
    show ?thesis
    proof (cases "truthy uri")
      case False
      with True uri show ?thesis by (simp add: factory_def)
    next
      case turi: True
      show ?thesis
      proof (cases "table_names tables")
        case (Inl e)
        then have "e = TypeError" by (auto split: if_splits jsval.splits)
        with Inl True uri turi opts tables show ?thesis
          by (simp add: factory_def del: table_names.simps)
      next
        case (Inr zones)
        from factory_zones [OF True uri turi opts tables Inr] show ?thesis by simp
      qed
    qed
  qed
next
  show "truthy config \<and> get_prop config ''mongoUri'' = Inr uri \<and> truthy uri \<and>
    get_prop config ''tables'' = Inr tables \<and> (\<not> truthy tables \<or> tables = JArr xs) \<longrightarrow>
      (\<exists>evs st. factory config = (evs, Inr st) \<and> GetCollection ''history'' \<in> set evs \<and>
         map_of st ''history'' = Some \<lparr>zone = ''history'', history_methods = True\<rparr>)"
  proof
    assume a: "truthy config \<and> get_prop config ''mongoUri'' = Inr uri \<and> truthy uri \<and>
      get_prop config ''tables'' = Inr tables \<and> (\<not> truthy tables \<or> tables = JArr xs)"
    then have tc: "truthy config" and uri: "get_prop config ''mongoUri'' = Inr uri"
      and turi: "truthy uri" and tables: "get_prop config ''tables'' = Inr tables"
      and shape: "\<not> truthy tables \<or> tables = JArr xs" by simp_all
    obtain opts where opts: "get_prop config ''mongoOptions'' = Inr opts"
      using get_prop_truthy [OF tc] by blast
    from shape obtain zones where zones: "table_names tables = Inr zones" by auto
    then have h: "''history'' \<in> set zones" by (rule table_names_history)
    let ?st = "set_prop (make_stores zones []) ''history'' \<lparr>zone = ''history'', history_methods = True\<rparr>"
    let ?evs = "Connect uri opts # map GetCollection zones"
    have "factory config = (?evs, Inr ?st)"
      by (rule factory_zones [OF tc uri turi opts tables zones])
    moreover have "GetCollection ''history'' \<in> set ?evs" using h by simp
    moreover have "map_of ?st ''history'' = Some \<lparr>zone = ''history'', history_methods = True\<rparr>"
      by (simp add: set_prop_map_of)
    ultimately show "\<exists>evs st. factory config = (evs, Inr st) \<and> GetCollection ''history'' \<in> set evs \<and>
         map_of st ''history'' = Some \<lparr>zone = ''history'', history_methods = True\<rparr>"
      by blast
  qed
qed

theorem history_error_unreachable_witness:
  "truthy (JObj [(''mongoUri'', JStr ''localhost/mydb''), (''tables'', JArr [JStr ''extra'', JNum 5])]) \<and>
   (\<exists>evs st. factory (JObj [(''mongoUri'', JStr ''localhost/mydb''),
                            (''tables'', JArr [JStr ''extra'', JNum 5])]) = (evs, Inr st) \<and>
      GetCollection ''history'' \<in> set evs \<and>
      map_of st ''history'' = Some \<lparr>zone = ''history'', history_methods = True\<rparr>)"
proof -
  let ?c = "JObj [(''mongoUri'', JStr ''localhost/mydb''), (''tables'', JArr [JStr ''extra'', JNum 5])]"
  have h: "truthy ?c \<and> get_prop ?c ''mongoUri'' = Inr (JStr ''localhost/mydb'') \<and>
      truthy (JStr ''localhost/mydb'') \<and>
      get_prop ?c ''tables'' = Inr (JArr [JStr ''extra'', JNum 5]) \<and>
      (\<not> truthy (JArr [JStr ''extra'', JNum 5]) \<or> JArr [JStr ''extra'', JNum 5] = JArr [JStr ''extra'', JNum 5])"
    by simp
  from history_error_unreachable
    [of ?c "JStr ''localhost/mydb''" "JArr [JStr ''extra'', JNum 5]" "[JStr ''extra'', JNum 5]",
     THEN conjunct2, THEN mp, OF h]
  show ?thesis by simp
qed

text \<open>
  Claim C6 does not hold of the code. When the backing store fails the \<^verbatim>\<open>find\<close> call of
  \<^verbatim>\<open>getHistoryForUser\<close>, its callback is called with the error alone, and the log line
  of line 79 reads \<^verbatim>\<open>history.length\<close> of \<^verbatim>\<open>undefined\<close> before line 80 looks at the
  error: the callback throws a \<^verbatim>\<open>TypeError\<close> and the promise is neither rejected nor
  resolved.
\<close>

theorem getHistoryForUser_backing_error:
  "getHistoryForUser user limit (t\<lparr>fault := Some err\<rparr>) = Unsettled TypeError"
  by (simp add: getHistoryForUser_def tbl_find_sorted_def history_callback_def)

text \<open>
  The sibling \<^verbatim>\<open>addToHistory\<close> looks at the error first and rejects with it, and so
  would the callback of \<^verbatim>\<open>getHistoryForUser\<close> if it were handed an array with the error.
\<close>

lemma addToHistory_backing_error:
  "truthy err \<Longrightarrow>
   addToHistory message user now (t\<lparr>fault := Some err\<rparr>) = Inr (Rejected err, t\<lparr>fault := Some err\<rparr>)"
  by (simp add: addToHistory_def insert_record_def tbl_insert_def)

lemma history_callback_error_with_array:
  "truthy err \<Longrightarrow> history_callback err (JArr xs) = Rejected err"
  by (simp add: history_callback_def)

text \<open>
  Claim C3. For every user \<open>U\<close> and limit \<open>n\<close>, on a history table that answers,
  \<^verbatim>\<open>getHistoryForUser(U, n)\<close> asks the table for the entries with \<^verbatim>\<open>userId == U\<close>,
  sorted descending by \<^verbatim>\<open>date\<close> and capped at \<open>n\<close>, and reverses the answer: it
  resolves with the last \<open>n\<close> of the entries of \<open>U\<close> in ascending order of date. The
  result is sorted ascending, has \<open>n\<close> entries (all of them when \<open>U\<close> has fewer), all of
  them entries of \<open>U\<close>, and no entry of \<open>U\<close> that is left out is more recent than one
  that is returned.
\<close>

theorem getHistoryForUser_most_recent:
  assumes "fault t = None"
  shows "\<exists>res. getHistoryForUser user n t = Resolved (JArr (map JObj res)) \<and>
           res = drop (length (entries_of user t) - n)
                   (sort_key (field_key ''date'') (entries_of user t)) \<and>
           sorted (map (field_key ''date'') res) \<and>
           length res = min n (length (entries_of user t)) \<and>
           mset res \<subseteq># mset (entries_of user t) \<and>
           (\<forall>x \<in># mset (entries_of user t) - mset res. \<forall>y \<in> set res.
              field_key ''date'' x \<le> field_key ''date'' y)"
proof -
  define res where "res = drop (length (entries_of user t) - n)
                   (sort_key (field_key ''date'') (entries_of user t))"
  note p = last_of_sorted [OF res_def]
  have "getHistoryForUser user n t = Resolved (JArr (map JObj res))"
    unfolding res_def using assms by (rule getHistoryForUser_result)
  with p res_def show ?thesis by blast
qed

theorem getHistoryForUser_most_recent_witness:
  "fault \<lparr>docs = [entry (JStr ''U'') (JStr ''m1'') 1, entry (JStr ''U'') (JStr ''m2'') 2,
                  entry (JStr ''V'') (JStr ''x'') 3,
                  entry (JStr ''U'') (JStr ''m3'') 4, entry (JStr ''U'') (JStr ''m4'') 5],
          fault = None\<rparr> = None \<and>
   getHistoryForUser (JStr ''U'') 2
     \<lparr>docs = [entry (JStr ''U'') (JStr ''m1'') 1, entry (JStr ''U'') (JStr ''m2'') 2,
              entry (JStr ''V'') (JStr ''x'') 3,
              entry (JStr ''U'') (JStr ''m3'') 4, entry (JStr ''U'') (JStr ''m4'') 5],
      fault = None\<rparr> =
     Resolved (JArr [JObj (entry (JStr ''U'') (JStr ''m3'') 4), JObj (entry (JStr ''U'') (JStr ''m4'') 5)])"
proof -
  let ?t = "\<lparr>docs = [entry (JStr ''U'') (JStr ''m1'') 1, entry (JStr ''U'') (JStr ''m2'') 2,
              entry (JStr ''V'') (JStr ''x'') 3,
              entry (JStr ''U'') (JStr ''m3'') 4, entry (JStr ''U'') (JStr ''m4'') 5],
      fault = None\<rparr>"
  have h: "fault ?t = None" by simp
  from getHistoryForUser_most_recent [OF h, of "JStr ''U''" 2] obtain res where
    r: "getHistoryForUser (JStr ''U'') 2 ?t = Resolved (JArr (map JObj res))"
       "res = drop (length (entries_of (JStr ''U'') ?t) - 2)
                   (sort_key (field_key ''date'') (entries_of (JStr ''U'') ?t))"
    by blast
  have "entries_of (JStr ''U'') ?t =
      [entry (JStr ''U'') (JStr ''m1'') 1, entry (JStr ''U'') (JStr ''m2'') 2,
       entry (JStr ''U'') (JStr ''m3'') 4, entry (JStr ''U'') (JStr ''m4'') 5]"
    by (simp add: entries_of_def matches_def entry_def)
  with r(2) have "res = [entry (JStr ''U'') (JStr ''m3'') 4, entry (JStr ''U'') (JStr ''m4'') 5]"
    by (simp add: field_key_def entry_def)
  with r(1) h show ?thesis by simp
qed

text \<open>The example of the specification: four entries of \<open>U\<close> inserted at the times
  \<open>t1 < t2 < t3 < t4\<close>, then the two most recent asked for.\<close>

lemma history_ordering_example:
  assumes "t1 < t2" "t2 < t3" "t3 < t4"
    and "addToHistory m1 U t1 \<lparr>docs = [], fault = None\<rparr> = Inr (p1, s1)"
    and "addToHistory m2 U t2 s1 = Inr (p2, s2)"
    and "addToHistory m3 U t3 s2 = Inr (p3, s3)"
    and "addToHistory m4 U t4 s3 = Inr (p4, s4)"
  shows "getHistoryForUser U 2 s4 = Resolved (JArr [JObj (entry U m3 t3), JObj (entry U m4 t4)])"
proof -
  from assms(4) have s1: "s1 = \<lparr>docs = [entry U m1 t1], fault = None\<rparr>"
    by (simp add: addToHistory_appends)
  with assms(5) have s2: "s2 = \<lparr>docs = [entry U m1 t1, entry U m2 t2], fault = None\<rparr>"
    by (simp add: addToHistory_appends)
  with assms(6) have s3: "s3 = \<lparr>docs = [entry U m1 t1, entry U m2 t2, entry U m3 t3], fault = None\<rparr>"
    by (simp add: addToHistory_appends)
  with assms(7) have s4: "s4 = \<lparr>docs = [entry U m1 t1, entry U m2 t2, entry U m3 t3, entry U m4 t4],
      fault = None\<rparr>"
    by (simp add: addToHistory_appends)
  have e: "entries_of U s4 = [entry U m1 t1, entry U m2 t2, entry U m3 t3, entry U m4 t4]"
    by (simp add: s4 entries_of_def matches_def entry_def)
  have k: "\<And>m t. field_key ''date'' (entry U m t) = Some t"
    by (simp add: field_key_def entry_def)
  have "sort_key (field_key ''date'') (entries_of U s4) =
          [entry U m1 t1, entry U m2 t2, entry U m3 t3, entry U m4 t4]"
    unfolding e using assms(1-3) by (simp add: k)
  moreover have "fault s4 = None" by (simp add: s4)
  ultimately show ?thesis
    by (simp add: getHistoryForUser_result e)
qed

section \<open>The zone store against its specification\<close>



text \<open>
  Claim C4. For every record containing an id, \<open>update\<close> performs an upsert keyed on
  the id that sets the fields of the record as they are, with no flattening. Whenever
  the update succeeds, every field of the record holds its value in the stored
  document, whole: a nested object replaces the stored field, and what the stored field
  held before is lost. The update does succeed for every record with an id and with
  field names free of dots on a table that answers. Given the stored record
  \<^verbatim>\<open>{id:1, a:{x:1,y:2}}\<close>, \<^verbatim>\<open>update({id:1, a:{x:99}})\<close> yields \<^verbatim>\<open>{id:1, a:{x:99}}\<close>,
  where \<open>save\<close> yields \<^verbatim>\<open>{id:1, a:{x:99,y:2}}\<close>.
\<close>

theorem update_replaces_top_level_fields:
  "(update data t = Inr (Done d', t') \<longrightarrow>
      (\<exists>idv. get_prop (JObj data) ''id'' = Inr idv \<and>
         (\<forall>(k, v) \<in> set data. get_path (split_path k) d' = Some v) \<and>
         (\<forall>(k, v) \<in> set data. CHR ''.'' \<notin> set k \<longrightarrow> map_of d' k = Some v) \<and>
         (\<forall>q. (\<forall>k \<in> fst ` set data. apart (split_path k) q) \<longrightarrow>
              get_path q d' = get_path q (base_doc [(''id'', idv)] t)) \<and>
         (case find (matches [(''id'', idv)]) (docs t) of
            None \<Rightarrow> docs t' = docs t @ [d']
          | Some d \<Rightarrow> \<exists>xs ys. docs t = xs @ d # ys \<and> docs t' = xs @ d' # ys \<and>
                        (\<forall>x \<in> set xs. \<not> matches [(''id'', idv)] x)))) \<and>
   (distinct (map fst data) \<and> (\<forall>k \<in> fst ` set data. k \<noteq> [] \<and> CHR ''.'' \<notin> set k) \<and>
    map_of data ''id'' = Some idv \<and> idv \<noteq> JUndefined \<and> fault t = None \<longrightarrow>
      (\<exists>t'. update data t = Inr (Done (object_assign (base_doc [(''id'', idv)] t) data), t'))) \<and>
   update [(''id'', JNum 1), (''a'', JObj [(''x'', JNum 99)])]
        \<lparr>docs = [[(''id'', JNum 1), (''a'', JObj [(''x'', JNum 1), (''y'', JNum 2)])]], fault = None\<rparr> =
     Inr (Done [(''id'', JNum 1), (''a'', JObj [(''x'', JNum 99)])],
          \<lparr>docs = [[(''id'', JNum 1), (''a'', JObj [(''x'', JNum 99)])]], fault = None\<rparr>) \<and>
   save [(''id'', JNum 1), (''a'', JObj [(''x'', JNum 99)])]
        \<lparr>docs = [[(''id'', JNum 1), (''a'', JObj [(''x'', JNum 1), (''y'', JNum 2)])]], fault = None\<rparr> =
     Inr (Done [(''id'', JNum 1), (''a'', JObj [(''x'', JNum 99), (''y'', JNum 2)])],
          \<lparr>docs = [[(''id'', JNum 1), (''a'', JObj [(''x'', JNum 99), (''y'', JNum 2)])]], fault = None\<rparr>)"
proof (intro conjI impI)
  assume s: "update data t = Inr (Done d', t')"
  obtain idv where idv: "get_prop (JObj data) ''id'' = Inr idv" by simp
  from s idv have f: "tbl_findOneAndUpdate [(''id'', idv)] data t = (Done d', t')"
    by (auto simp: update_def)
  note r = tbl_findOneAndUpdate_done [OF f]
  have top: "\<forall>(k, v) \<in> set data. CHR ''.'' \<notin> set k \<longrightarrow> map_of d' k = Some v"
  proof (intro ballI, clarify)
    fix k v
    assume kv: "(k, v) \<in> set data" and nd: "CHR ''.'' \<notin> set k"
    from r(1) kv have "get_path (split_path k) d' = Some v" by blast
    with nd show "map_of d' k = Some v" by (simp add: split_path_no_dot)
  qed
  show "\<exists>idv. get_prop (JObj data) ''id'' = Inr idv \<and>
         (\<forall>(k, v) \<in> set data. get_path (split_path k) d' = Some v) \<and>
         (\<forall>(k, v) \<in> set data. CHR ''.'' \<notin> set k \<longrightarrow> map_of d' k = Some v) \<and>
         (\<forall>q. (\<forall>k \<in> fst ` set data. apart (split_path k) q) \<longrightarrow>
              get_path q d' = get_path q (base_doc [(''id'', idv)] t)) \<and>
         (case find (matches [(''id'', idv)]) (docs t) of
            None \<Rightarrow> docs t' = docs t @ [d']
          | Some d \<Rightarrow> \<exists>xs ys. docs t = xs @ d # ys \<and> docs t' = xs @ d' # ys \<and>
                        (\<forall>x \<in> set xs. \<not> matches [(''id'', idv)] x))"
    using idv r(1) top r(2) r(3) by (intro exI [of _ idv] conjI)
next
  assume a: "distinct (map fst data) \<and> (\<forall>k \<in> fst ` set data. k \<noteq> [] \<and> CHR ''.'' \<notin> set k) \<and>
    map_of data ''id'' = Some idv \<and> idv \<noteq> JUndefined \<and> fault t = None"
  then have d: "distinct (map fst data)"
    and ks: "\<forall>k \<in> fst ` set data. k \<noteq> [] \<and> CHR ''.'' \<notin> set k"
    and idv: "map_of data ''id'' = Some idv" "idv \<noteq> JUndefined" and ft: "fault t = None"
    by simp_all
  from tbl_findOneAndUpdate_flat [OF ft idv(2) d ks] obtain t' where
    "tbl_findOneAndUpdate [(''id'', idv)] data t =
       (Done (object_assign (base_doc [(''id'', idv)] t) data), t')" by blast
  with idv(1) have "update data t = Inr (Done (object_assign (base_doc [(''id'', idv)] t) data), t')"
    by (simp add: update_def)
  then show "\<exists>t'. update data t = Inr (Done (object_assign (base_doc [(''id'', idv)] t) data), t')" ..
next
  show "update [(''id'', JNum 1), (''a'', JObj [(''x'', JNum 99)])]
        \<lparr>docs = [[(''id'', JNum 1), (''a'', JObj [(''x'', JNum 1), (''y'', JNum 2)])]], fault = None\<rparr> =
     Inr (Done [(''id'', JNum 1), (''a'', JObj [(''x'', JNum 99)])],
          \<lparr>docs = [[(''id'', JNum 1), (''a'', JObj [(''x'', JNum 99)])]], fault = None\<rparr>)"
    by (simp add: update_def tbl_findOneAndUpdate_def matches_def valid_path_def apart_def)
next
  show "save [(''id'', JNum 1), (''a'', JObj [(''x'', JNum 99)])]
        \<lparr>docs = [[(''id'', JNum 1), (''a'', JObj [(''x'', JNum 1), (''y'', JNum 2)])]], fault = None\<rparr> =
     Inr (Done [(''id'', JNum 1), (''a'', JObj [(''x'', JNum 99), (''y'', JNum 2)])],
          \<lparr>docs = [[(''id'', JNum 1), (''a'', JObj [(''x'', JNum 99), (''y'', JNum 2)])]], fault = None\<rparr>)"
    by (simp add: save_def tbl_findOneAndUpdate_def matches_def valid_path_def apart_def)
qed

theorem update_replaces_top_level_fields_witness:
  "update [(''id'', JNum 7), (''a'', JObj [(''x'', JNum 99)])]
        \<lparr>docs = [[(''id'', JNum 7), (''a'', JObj [(''x'', JNum 1), (''y'', JNum 2)]), (''b'', JNum 2)]],
         fault = None\<rparr> =
     Inr (Done [(''id'', JNum 7), (''a'', JObj [(''x'', JNum 99)]), (''b'', JNum 2)],
          \<lparr>docs = [[(''id'', JNum 7), (''a'', JObj [(''x'', JNum 99)]), (''b'', JNum 2)]],
           fault = None\<rparr>) \<and>
   map_of [(''id'', JNum 7), (''a'', JObj [(''x'', JNum 99)]), (''b'', JNum 2)] ''a'' =
     Some (JObj [(''x'', JNum 99)])"
proof -
  let ?data = "[(''id'', JNum 7), (''a'', JObj [(''x'', JNum 99)])]"
  let ?t = "\<lparr>docs = [[(''id'', JNum 7), (''a'', JObj [(''x'', JNum 1), (''y'', JNum 2)]), (''b'', JNum 2)]],
         fault = None\<rparr>"
  let ?d' = "[(''id'', JNum 7), (''a'', JObj [(''x'', JNum 99)]), (''b'', JNum 2)]"
  let ?t' = "\<lparr>docs = [?d'], fault = None\<rparr>"
  have h: "update ?data ?t = Inr (Done ?d', ?t')"
    by (simp add: update_def tbl_findOneAndUpdate_def matches_def valid_path_def apart_def)
  from update_replaces_top_level_fields [of ?data ?t ?d' ?t', THEN conjunct1, THEN mp, OF h]
  have "\<forall>(k, v) \<in> set ?data. CHR ''.'' \<notin> set k \<longrightarrow> map_of ?d' k = Some v"
    by blast
  then have "map_of ?d' ''a'' = Some (JObj [(''x'', JNum 99)])" by simp
  with h show ?thesis by (intro conjI)
qed

end
